theory Spec2Isabelle
  imports Main "HOL-Library.Sublist"
begin

section \<open>Data model of \<open>src/server.js\<close>\<close>

text \<open>
  The in-memory stores. GraphQL \<open>ID\<close> and \<open>String\<close> arguments reach the resolvers as
  strings, so every identifier is a \<open>string\<close>.
\<close>

record user =
  user_id :: string
  username :: string

record channel =
  channel_id :: string
  name :: string

record message =
  msg_id :: string
  content :: string
  createdAt :: string
  senderId :: string
  channelId :: string

text \<open>The object \<open>{ messageAdded: newMessage }\<close> handed to \<open>pubsub.publish\<close>.\<close>

datatype payload = MessageAdded (messageAdded: message)

text \<open>An iterator result \<open>{ value, done }\<close>; \<open>None\<close> is \<open>undefined\<close>.\<close>

record iter_result =
  ir_value :: "payload option"
  ir_done :: bool

type_synonym topic = string

text \<open>
  The variables \<open>value\<close> and \<open>resolveNext\<close> that one call of \<open>next()\<close> declares and its
  \<open>listener\<close> closure captures. \<open>None\<close> is \<open>undefined\<close>/\<open>null\<close>; a resolver is named by
  the promise it settles.
\<close>

record closure =
  lc_value :: "payload option"
  lc_resolveNext :: "nat option"

text \<open>
  Modelled from the spec: the \<open>PubSub\<close> class of the package \<open>graphql-subscriptions\<close> is
  imported, not part of \<open>src/\<close>. Following section 4.1 of the specification it is a
  registry of listeners per topic, kept in registration order; \<open>subscribe\<close> registers a
  listener and returns a handle, \<open>publish\<close> calls every listener registered for the topic,
  synchronously and in registration order. A registry entry is (handle, topic, listener),
  the listener being named by the index of its closure in the world below.
\<close>

record pubsub_state =
  subscriptions :: "(nat \<times> topic \<times> nat) list"
  subIdCounter :: nat

text \<open>
  The two calls whose order in time matters to the claims: \<open>messages.push(m)\<close> and
  \<open>pubsub.publish(topic, payload)\<close>.
\<close>

datatype effect = Pushed message | Published topic payload

text \<open>
  The state of the process: the promises created so far (\<open>None\<close> while pending, the result
  once settled), the closures created by calls of \<open>next()\<close>, the module-level \<open>pubsub\<close> and
  the module-level \<open>messages\<close> array. The \<open>journal\<close> is no variable of the program: it lists
  the calls of \<open>messages.push\<close> and \<open>pubsub.publish\<close> in the order in which the program has
  made them, each call entering itself, so that the order of two calls can be stated. No
  operation reads it.
\<close>

record world =
  promises :: "iter_result option list"
  closures :: "closure list"
  pubsub :: pubsub_state
  messages :: "message list"
  journal :: "effect list"

text \<open>The subscription object returned by \<open>Subscription.messageAdded.subscribe\<close>: its two
  captured variables \<open>topicName\<close> and \<open>iterator\<close>.\<close>

record session =
  topicName :: topic
  iterator :: "unit option"

definition users :: "user list" where
  "users = [\<lparr>user_id = ''1'', username = ''user1''\<rparr>, \<lparr>user_id = ''2'', username = ''user2''\<rparr>]"

definition channels :: "channel list" where
  "channels = [\<lparr>channel_id = ''1'', name = ''general''\<rparr>, \<lparr>channel_id = ''2'', name = ''random''\<rparr>]"

definition init_world :: world where
  "init_world = \<lparr>promises = [], closures = [],
     pubsub = \<lparr>subscriptions = [], subIdCounter = 0\<rparr>, messages = [], journal = []\<rparr>"

section \<open>Promises\<close>

text \<open>\<open>new Promise(...)\<close>: a fresh pending promise, named by its index.\<close>

definition new_promise :: "world \<Rightarrow> nat \<times> world" where
  "new_promise w = (length (promises w), w\<lparr>promises := promises w @ [None]\<rparr>)"

text \<open>Calling a promise's \<open>resolve\<close> function settles it if it is pending and does nothing
  otherwise.\<close>

definition resolve :: "nat \<Rightarrow> iter_result \<Rightarrow> world \<Rightarrow> world" where
  "resolve p r w =
     (if p < length (promises w) \<and> promises w ! p = None
      then w\<lparr>promises := (promises w)[p := Some r]\<rparr> else w)"

text \<open>What a consumer awaiting promise \<open>p\<close> has got: \<open>None\<close> while it is pending.\<close>

definition promise_state :: "world \<Rightarrow> nat \<Rightarrow> iter_result option" where
  "promise_state w p = (if p < length (promises w) then promises w ! p else None)"

section \<open>The event bus\<close>

text \<open>Modelled from the spec: \<open>PubSub.subscribe(topic, listener)\<close> appends the listener to
  the registry and returns its handle.\<close>

definition pubsub_subscribe :: "topic \<Rightarrow> nat \<Rightarrow> pubsub_state \<Rightarrow> nat \<times> pubsub_state" where
  "pubsub_subscribe t l ps =
     (let n = subIdCounter ps + 1
      in (n, ps\<lparr>subscriptions := subscriptions ps @ [(n, t, l)], subIdCounter := n\<rparr>))"

text \<open>
  The \<open>listener\<close> closure of \<open>next()\<close> (lines 116-122), called with an event:
  \<^verbatim>\<open>value = event; if (resolveNext) { resolveNext({ value, done: false }); resolveNext = null; }\<close>
\<close>

definition listener :: "nat \<Rightarrow> payload \<Rightarrow> world \<Rightarrow> world" where
  "listener l event w =
     (let w1 = w\<lparr>closures := (closures w)[l := (closures w ! l)\<lparr>lc_value := Some event\<rparr>]\<rparr>
      in case lc_resolveNext (closures w1 ! l) of
           Some p \<Rightarrow>
             (let w2 = resolve p \<lparr>ir_value = lc_value (closures w1 ! l), ir_done = False\<rparr> w1
              in w2\<lparr>closures := (closures w2)[l := (closures w2 ! l)\<lparr>lc_resolveNext := None\<rparr>]\<rparr>)
         | None \<Rightarrow> w1)"

text \<open>Modelled from the spec: \<open>PubSub.publish(topic, payload)\<close> calls the listeners
  registered for the topic when the call starts, in registration order. The call enters
  itself in the journal.\<close>

definition deliver :: "topic \<Rightarrow> payload \<Rightarrow> nat \<times> topic \<times> nat \<Rightarrow> world \<Rightarrow> world" where
  "deliver t event entry w =
     (case entry of (h, t', l) \<Rightarrow> if t' = t then listener l event w else w)"

definition publish :: "topic \<Rightarrow> payload \<Rightarrow> world \<Rightarrow> world" where
  "publish t event w =
     fold (deliver t event) (subscriptions (pubsub w))
       (w\<lparr>journal := journal w @ [Published t event]\<rparr>)"

section \<open>The subscription resolver\<close>

text \<open>The template literal \<open>`MESSAGE_ADDED_${channelId}`\<close>, written at lines 89 and 98.\<close>

definition topic_of :: "string \<Rightarrow> topic" where
  "topic_of cid = ''MESSAGE_ADDED_'' @ cid"

text \<open>
  \<open>Subscription.messageAdded.subscribe\<close> (lines 97-143) computes the topic, declares
  \<open>iterator\<close> without assigning it and returns the iterable; it touches no shared state.
\<close>

definition messageAdded_subscribe :: "string \<Rightarrow> world \<Rightarrow> session \<times> world" where
  "messageAdded_subscribe cid w = (\<lparr>topicName = topic_of cid, iterator = None\<rparr>, w)"

text \<open>
  \<open>next()\<close> (lines 105-134). The promise executor runs synchronously: it returns at once
  when \<open>iterator\<close> is set, leaving the promise pending; otherwise it declares \<open>value\<close> and
  \<open>resolveNext\<close>, registers a new \<open>listener\<close> over them with the bus, drops the handle, and
  either resolves the promise with \<open>value\<close> or stores the promise's resolver in
  \<open>resolveNext\<close>. The local array \<open>listeners\<close> is never read and is left out.
\<close>

definition iter_next :: "session \<Rightarrow> world \<Rightarrow> nat \<times> world" where
  "iter_next s w =
     (case new_promise w of (p, w0) \<Rightarrow>
        (case iterator s of
           Some u \<Rightarrow> (p, w0)
         | None \<Rightarrow>
             (let l = length (closures w0);
                  w1 = w0\<lparr>closures := closures w0 @ [\<lparr>lc_value = None, lc_resolveNext = None\<rparr>]\<rparr>;
                  w2 = w1\<lparr>pubsub := snd (pubsub_subscribe (topicName s) l (pubsub w1))\<rparr>
              in case lc_value (closures w2 ! l) of
                   Some v \<Rightarrow>
                     (let w3 = resolve p \<lparr>ir_value = Some v, ir_done = False\<rparr> w2
                      in (p, w3\<lparr>closures := (closures w3)[l := (closures w3 ! l)\<lparr>lc_value := None\<rparr>]\<rparr>))
                 | None \<Rightarrow>
                     (p, w2\<lparr>closures := (closures w2)[l := (closures w2 ! l)\<lparr>lc_resolveNext := Some p\<rparr>]\<rparr>))))"

text \<open>\<open>return()\<close> (lines 135-137): \<open>Promise.resolve({ value: undefined, done: true })\<close>.\<close>

definition iter_return :: "session \<Rightarrow> world \<Rightarrow> nat \<times> world" where
  "iter_return s w =
     (case new_promise w of (p, w0) \<Rightarrow> (p, resolve p \<lparr>ir_value = None, ir_done = True\<rparr> w0))"

section \<open>The message resolvers\<close>

text \<open>\<open>String(n)\<close> for a non-negative integer: its decimal digits.\<close>

definition digit_char :: "nat \<Rightarrow> char" where
  "digit_char d = ''0123456789'' ! d"

fun string_of_nat :: "nat \<Rightarrow> string" where
  "string_of_nat n =
     (if n < 10 then [digit_char n] else string_of_nat (n div 10) @ [digit_char (n mod 10)])"

declare string_of_nat.simps [simp del]

text \<open>\<open>messages.push(m)\<close> (line 87); the call enters itself in the journal.\<close>

definition push_message :: "message \<Rightarrow> world \<Rightarrow> world" where
  "push_message m w = w\<lparr>messages := messages w @ [m], journal := journal w @ [Pushed m]\<rparr>"

text \<open>
  \<open>Mutation.sendMessage\<close> (lines 78-93). The result of \<open>new Date().toISOString()\<close> is the
  parameter \<open>now\<close>.
\<close>

definition sendMessage :: "string \<Rightarrow> string \<Rightarrow> string \<Rightarrow> string \<Rightarrow> world \<Rightarrow> message \<times> world" where
  "sendMessage now c sid cid w =
     (let newMessage = \<lparr>msg_id = string_of_nat (length (messages w) + 1), content = c,
                        createdAt = now, senderId = sid, channelId = cid\<rparr>;
          w1 = push_message newMessage w;
          topicName = topic_of cid;
          w2 = publish topicName (MessageAdded newMessage) w1
      in (newMessage, w2))"

text \<open>\<open>Message.sender\<close> (line 75): \<open>users.find(user => user.id === message.senderId)\<close>.\<close>

definition Message_sender :: "message \<Rightarrow> user option" where
  "Message_sender m = find (\<lambda>u. user_id u = senderId m) users"

section \<open>Runs of the program and what they are compared with\<close>

text \<open>The calls a run is made of: \<open>next()\<close> and \<open>return()\<close> on a subscription object, and
  \<open>pubsub.publish\<close>.\<close>

datatype op = Next session | Return session | Publish topic payload

text \<open>A run performs the calls in order and collects the promises returned by \<open>next()\<close> and
  \<open>return()\<close>, in call order.\<close>

fun run :: "op list \<Rightarrow> world \<Rightarrow> nat list \<times> world" where
  "run [] w = ([], w)"
| "run (Next s # ops) w =
     (case iter_next s w of (p, w1) \<Rightarrow> (case run ops w1 of (ps, w2) \<Rightarrow> (p # ps, w2)))"
| "run (Return s # ops) w =
     (case iter_return s w of (p, w1) \<Rightarrow> (case run ops w1 of (ps, w2) \<Rightarrow> (p # ps, w2)))"
| "run (Publish t event # ops) w = run ops (publish t event w)"

text \<open>What the promises of a run have got when it ends.\<close>

definition outcomes :: "op list \<Rightarrow> world \<Rightarrow> iter_result option list" where
  "outcomes ops w = map (promise_state (snd (run ops w))) (fst (run ops w))"

text \<open>The events handed to the consumer, in the order of the calls that got them.\<close>

definition delivered :: "iter_result option list \<Rightarrow> payload list" where
  "delivered rs = List.map_filter
     (\<lambda>r. case r of None \<Rightarrow> None | Some x \<Rightarrow> if ir_done x then None else ir_value x) rs"

text \<open>The events published to a topic during a run, in publish order.\<close>

fun published :: "topic \<Rightarrow> op list \<Rightarrow> payload list" where
  "published t [] = []"
| "published t (Publish t' event # ops) =
     (if t' = t then event # published t ops else published t ops)"
| "published t (Next s # ops) = published t ops"
| "published t (Return s # ops) = published t ops"

text \<open>The first event published to a topic in the rest of a run, as an iterator result.\<close>

fun first_publish :: "topic \<Rightarrow> op list \<Rightarrow> iter_result option" where
  "first_publish t [] = None"
| "first_publish t (Publish t' event # ops) =
     (if t' = t then Some \<lparr>ir_value = Some event, ir_done = False\<rparr> else first_publish t ops)"
| "first_publish t (Next s # ops) = first_publish t ops"
| "first_publish t (Return s # ops) = first_publish t ops"

text \<open>
  The outcome of every call of a run, read off the list of calls alone: a \<open>next()\<close> gets the
  first event published to its topic after the call, a \<open>return()\<close> gets end-of-sequence.
\<close>

fun expected :: "op list \<Rightarrow> iter_result option list" where
  "expected [] = []"
| "expected (Next s # ops) =
     (if iterator s = None then first_publish (topicName s) ops else None) # expected ops"
| "expected (Return s # ops) = Some \<lparr>ir_value = None, ir_done = True\<rparr> # expected ops"
| "expected (Publish t event # ops) = expected ops"

text \<open>The listeners registered with the bus for a topic, in registration order.\<close>

definition listeners_for :: "topic \<Rightarrow> world \<Rightarrow> nat list" where
  "listeners_for t w =
     map (\<lambda>entry. snd (snd entry)) (filter (\<lambda>entry. fst (snd entry) = t) (subscriptions (pubsub w)))"

text \<open>The promises whose resolver a listener registered for the topic holds, in
  registration order of the listeners.\<close>

definition held :: "topic \<Rightarrow> world \<Rightarrow> nat list" where
  "held t w = List.map_filter (\<lambda>l. lc_resolveNext (closures w ! l)) (listeners_for t w)"

text \<open>The outstanding pulls on a topic: the promises that exist and are pending and whose
  resolver a listener registered for the topic holds.\<close>

definition outstanding :: "topic \<Rightarrow> world \<Rightarrow> nat list" where
  "outstanding t w =
     filter (\<lambda>p. p < length (promises w) \<and> promises w ! p = None) (held t w)"

text \<open>Pull-then-publish rounds: the consumer calls \<open>next()\<close> and the event is published
  while that call is pending, once for every event of the list.\<close>

definition rounds :: "session \<Rightarrow> payload list \<Rightarrow> op list" where
  "rounds s es = concat (map (\<lambda>e. [Next s, Publish (topicName s) e]) es)"

text \<open>
  Well-formed worlds: every registered listener is a closure that exists, and every
  resolver held by a closure belongs to a promise that exists. The initial world is
  well-formed and every operation keeps it so.
\<close>

definition wf :: "world \<Rightarrow> bool" where
  "wf w \<longleftrightarrow>
     list_all (\<lambda>entry. snd (snd entry) < length (closures w)) (subscriptions (pubsub w)) \<and>
     list_all (\<lambda>c. case lc_resolveNext c of None \<Rightarrow> True | Some p \<Rightarrow> p < length (promises w))
       (closures w)"

text \<open>
  No listener holds a stored event and an unresolved pull at once: of the two variables
  \<open>value\<close> and \<open>resolveNext\<close> of a closure, one is unset.
\<close>

definition unbuffered :: "world \<Rightarrow> bool" where
  "unbuffered w \<longleftrightarrow> list_all (\<lambda>c. lc_value c = None \<or> lc_resolveNext c = None) (closures w)"

text \<open>
  The resolver of a promise is never held by listeners of two different topics. The
  initial world is so and every operation keeps it so.
\<close>

definition apart :: "world \<Rightarrow> bool" where
  "apart w \<longleftrightarrow>
     (\<forall>entry \<in> set (subscriptions (pubsub w)). \<forall>entry' \<in> set (subscriptions (pubsub w)).
        lc_resolveNext (closures w ! snd (snd entry)) \<noteq> None \<and>
        lc_resolveNext (closures w ! snd (snd entry)) = lc_resolveNext (closures w ! snd (snd entry'))
        \<longrightarrow> fst (snd entry) = fst (snd entry'))"

text \<open>
  Three notions used to follow one promise through a run. No listener registered for topic
  \<open>t\<close> holds the resolver of \<open>p\<close>; no registered listener at all holds it (\<open>idle\<close>); \<open>p\<close> is
  pending and its resolver is held by a listener registered for \<open>t\<close> and by no listener of
  another topic (\<open>armed\<close>).
\<close>

definition nohold :: "topic \<Rightarrow> nat \<Rightarrow> world \<Rightarrow> bool" where
  "nohold t p w \<longleftrightarrow>
     (\<forall>h l. (h, t, l) \<in> set (subscriptions (pubsub w)) \<longrightarrow> lc_resolveNext (closures w ! l) \<noteq> Some p)"

definition idle :: "nat \<Rightarrow> world \<Rightarrow> bool" where
  "idle p w \<longleftrightarrow> p < length (promises w) \<and> (\<forall>t. nohold t p w)"

definition armed :: "topic \<Rightarrow> nat \<Rightarrow> world \<Rightarrow> bool" where
  "armed t p w \<longleftrightarrow>
     promise_state w p = None \<and> p < length (promises w) \<and>
     (\<exists>h l. (h, t, l) \<in> set (subscriptions (pubsub w)) \<and> lc_resolveNext (closures w ! l) = Some p) \<and>
     (\<forall>t'. t' \<noteq> t \<longrightarrow> nohold t' p w)"

section \<open>Sample data for the concrete scenarios\<close>

definition sample :: "string \<Rightarrow> string \<Rightarrow> payload" where
  "sample i c = MessageAdded \<lparr>msg_id = i, content = c, createdAt = ''2024-01-01T00:00:00.000Z'',
     senderId = ''1'', channelId = ''1''\<rparr>"

definition general :: session where
  "general = fst (messageAdded_subscribe ''1'' init_world)"

definition random :: session where
  "random = fst (messageAdded_subscribe ''2'' init_world)"

section \<open>Properties of the operations\<close>

subsection \<open>Promises\<close>

lemma new_promise_simps [simp]:
  "fst (new_promise w) = length (promises w)"
  "snd (new_promise w) = w\<lparr>promises := promises w @ [None]\<rparr>"
  by (simp_all add: new_promise_def)

lemma resolve_fields [simp]:
  "closures (resolve p r w) = closures w"
  "pubsub (resolve p r w) = pubsub w"
  "messages (resolve p r w) = messages w"
  "length (promises (resolve p r w)) = length (promises w)"
  by (simp_all add: resolve_def)

lemma promise_state_resolve:
  "promise_state (resolve p r w) q =
     (if q = p \<and> p < length (promises w) \<and> promise_state w p = None then Some r
      else promise_state w q)"
  by (auto simp: resolve_def promise_state_def nth_list_update)

lemma promise_state_closures_update [simp]:
  "promise_state (w\<lparr>closures := cs\<rparr>) q = promise_state w q"
  by (simp add: promise_state_def)

lemma promise_state_messages_update [simp]:
  "promise_state (w\<lparr>messages := ms\<rparr>) q = promise_state w q"
  by (simp add: promise_state_def)

lemma promise_state_journal_update [simp]:
  "promise_state (w\<lparr>journal := j\<rparr>) q = promise_state w q"
  by (simp add: promise_state_def)

lemma promise_state_pubsub_update [simp]:
  "promise_state (w\<lparr>pubsub := ps\<rparr>) q = promise_state w q"
  by (simp add: promise_state_def)

lemma promise_state_Some_length: "promise_state w p = Some r \<Longrightarrow> p < length (promises w)"
  by (simp add: promise_state_def split: if_splits)

lemma resolve_closures_update:
  "resolve p r (w\<lparr>closures := cs\<rparr>) = (resolve p r w)\<lparr>closures := cs\<rparr>"
  by (simp add: resolve_def)

lemma resolve_journal_update:
  "resolve p r (w\<lparr>journal := j\<rparr>) = (resolve p r w)\<lparr>journal := j\<rparr>"
  by (simp add: resolve_def)

lemma resolve_messages_update:
  "resolve p r (w\<lparr>messages := ms\<rparr>) = (resolve p r w)\<lparr>messages := ms\<rparr>"
  by (simp add: resolve_def)

lemma in_set_updateD: "c \<in> set (xs[l := y]) \<Longrightarrow> c = y \<or> c \<in> set xs"
  using set_update_subset_insert[of xs l y] by auto

subsection \<open>The listener\<close>

lemma listener_eq:
  assumes "l < length (closures w)"
  shows "listener l e w =
    (case lc_resolveNext (closures w ! l) of
       None \<Rightarrow> w
     | Some p \<Rightarrow> resolve p \<lparr>ir_value = Some e, ir_done = False\<rparr> w)
    \<lparr>closures := (closures w)[l := \<lparr>lc_value = Some e, lc_resolveNext = None\<rparr>]\<rparr>"
  using assms by (cases "closures w ! l") (simp add: listener_def Let_def resolve_closures_update split: option.splits)

lemma listener_fields [simp]:
  "pubsub (listener l e w) = pubsub w"
  "messages (listener l e w) = messages w"
  "length (closures (listener l e w)) = length (closures w)"
  "length (promises (listener l e w)) = length (promises w)"
  by (simp_all add: listener_def Let_def split: option.splits)

lemma deliver_fields [simp]:
  "pubsub (deliver t e x w) = pubsub w"
  "messages (deliver t e x w) = messages w"
  "length (closures (deliver t e x w)) = length (closures w)"
  "length (promises (deliver t e x w)) = length (promises w)"
  by (simp_all add: deliver_def split: prod.splits)

lemma fold_deliver_fields [simp]:
  "pubsub (fold (deliver t e) xs w) = pubsub w"
  "messages (fold (deliver t e) xs w) = messages w"
  "length (closures (fold (deliver t e) xs w)) = length (closures w)"
  "length (promises (fold (deliver t e) xs w)) = length (promises w)"
  by (induction xs arbitrary: w) simp_all

lemma listener_journal_update:
  "listener l e (w\<lparr>journal := j\<rparr>) = (listener l e w)\<lparr>journal := j\<rparr>"
  by (simp add: listener_def Let_def resolve_journal_update resolve_closures_update
      split: option.splits)

lemma deliver_journal_update:
  "deliver t e x (w\<lparr>journal := j\<rparr>) = (deliver t e x w)\<lparr>journal := j\<rparr>"
  by (simp add: deliver_def listener_journal_update split: prod.splits)

lemma fold_journal_update:
  "fold (deliver t e) xs (w\<lparr>journal := j\<rparr>) = (fold (deliver t e) xs w)\<lparr>journal := j\<rparr>"
  by (induction xs arbitrary: w) (simp_all add: deliver_journal_update)

lemma journal_fold_deliver [simp]: "journal (fold (deliver t e) xs w) = journal w"
  by (induction xs arbitrary: w)
     (simp_all add: deliver_def listener_def Let_def resolve_def split: prod.splits option.splits)

text \<open>A publish is the delivery to the listeners, with the call entered in the journal.\<close>

lemma publish_fold:
  "publish t e w =
     (fold (deliver t e) (subscriptions (pubsub w)) w)\<lparr>journal := journal w @ [Published t e]\<rparr>"
  by (simp add: publish_def fold_journal_update)

lemma publish_fields [simp]:
  "pubsub (publish t e w) = pubsub w"
  "messages (publish t e w) = messages w"
  "length (closures (publish t e w)) = length (closures w)"
  "length (promises (publish t e w)) = length (promises w)"
  "journal (publish t e w) = journal w @ [Published t e]"
  by (simp_all add: publish_fold)

lemma push_message_fields [simp]:
  "promises (push_message m w) = promises w"
  "closures (push_message m w) = closures w"
  "pubsub (push_message m w) = pubsub w"
  "messages (push_message m w) = messages w @ [m]"
  "journal (push_message m w) = journal w @ [Pushed m]"
  "promise_state (push_message m w) p = promise_state w p"
  by (simp_all add: push_message_def)

lemma fold_deliver_inv:
  assumes "\<And>x v. x \<in> set xs \<Longrightarrow> P v \<Longrightarrow> P (deliver t e x v)" and "P w"
  shows "P (fold (deliver t e) xs w)"
  using assms by (induction xs arbitrary: w) simp_all

subsection \<open>Well-formedness\<close>

lemma wf_iff:
  "wf w \<longleftrightarrow>
     (\<forall>h t l. (h, t, l) \<in> set (subscriptions (pubsub w)) \<longrightarrow> l < length (closures w)) \<and>
     (\<forall>c p. c \<in> set (closures w) \<longrightarrow> lc_resolveNext c = Some p \<longrightarrow> p < length (promises w))"
  by (auto simp: wf_def list_all_iff split: option.splits)

lemma wf_journal_update [simp]: "wf (w\<lparr>journal := j\<rparr>) = wf w"
  by (simp add: wf_iff)

lemma wf_push_message [simp]: "wf (push_message m w) = wf w"
  by (simp add: wf_iff)

lemma wf_init: "wf init_world"
  by (simp add: wf_def init_world_def)

lemma wf_nth:
  "wf w \<Longrightarrow> l < length (closures w) \<Longrightarrow> lc_resolveNext (closures w ! l) = Some p
     \<Longrightarrow> p < length (promises w)"
  unfolding wf_iff using nth_mem by blast

lemma wf_entry: "wf w \<Longrightarrow> (h, t, l) \<in> set (subscriptions (pubsub w)) \<Longrightarrow> l < length (closures w)"
  unfolding wf_iff by blast

lemma wf_listener:
  assumes "wf w" "l < length (closures w)"
  shows "wf (listener l e w)"
  using assms by (auto simp: wf_iff listener_eq split: option.splits dest!: in_set_updateD)

lemma wf_deliver:
  assumes "wf w" "x \<in> set (subscriptions (pubsub w))"
  shows "wf (deliver t e x w)"
  using assms by (cases x) (auto simp: deliver_def intro: wf_listener wf_entry)

lemma wf_publish:
  assumes "wf w"
  shows "wf (publish t e w)"
proof -
  have "wf (fold (deliver t e) (subscriptions (pubsub w)) w)"
    by (rule fold_deliver_inv[where P = "\<lambda>v. wf v \<and> pubsub v = pubsub w", THEN conjunct1])
       (use assms in \<open>auto intro: wf_deliver\<close>)
  then show ?thesis by (simp add: publish_fold)
qed

subsection \<open>next() and return()\<close>

lemma iter_next_eq:
  "iterator s = None \<Longrightarrow> iter_next s w =
     (length (promises w),
      w\<lparr>promises := promises w @ [None],
        closures := closures w @ [\<lparr>lc_value = None, lc_resolveNext = Some (length (promises w))\<rparr>],
        pubsub := (pubsub w)\<lparr>subscriptions := subscriptions (pubsub w) @
                      [(subIdCounter (pubsub w) + 1, topicName s, length (closures w))],
                    subIdCounter := subIdCounter (pubsub w) + 1\<rparr>\<rparr>)"
  by (simp add: iter_next_def new_promise_def pubsub_subscribe_def Let_def)

lemma iter_next_set:
  "iterator s = Some u \<Longrightarrow> iter_next s w = (length (promises w), w\<lparr>promises := promises w @ [None]\<rparr>)"
  by (simp add: iter_next_def new_promise_def)

lemma iter_return_eq:
  "iter_return s w =
     (length (promises w), w\<lparr>promises := promises w @ [Some \<lparr>ir_value = None, ir_done = True\<rparr>]\<rparr>)"
  by (simp add: iter_return_def new_promise_def resolve_def)

lemma fst_iter_next [simp]: "fst (iter_next s w) = length (promises w)"
  by (cases "iterator s") (simp_all add: iter_next_eq iter_next_set)

lemma promises_iter_next [simp]: "promises (snd (iter_next s w)) = promises w @ [None]"
  by (cases "iterator s") (simp_all add: iter_next_eq iter_next_set)

lemma messages_iter_next [simp]: "messages (snd (iter_next s w)) = messages w"
  by (cases "iterator s") (simp_all add: iter_next_eq iter_next_set)

lemma fst_iter_return [simp]: "fst (iter_return s w) = length (promises w)"
  by (simp add: iter_return_eq)

lemma promise_state_append:
  "promise_state (w\<lparr>promises := promises w @ [x]\<rparr>) q =
     (if q = length (promises w) then x else promise_state w q)"
  by (auto simp: promise_state_def nth_append)

lemma promise_state_iter_next:
  "promise_state (snd (iter_next s w)) q = promise_state w q"
  by (auto simp: promise_state_def nth_append)

lemma promise_state_iter_return:
  "promise_state (snd (iter_return s w)) q =
     (if q = length (promises w) then Some \<lparr>ir_value = None, ir_done = True\<rparr> else promise_state w q)"
  by (auto simp: iter_return_eq promise_state_def nth_append)

lemma wf_iter_next: "wf w \<Longrightarrow> wf (snd (iter_next s w))"
  by (cases "iterator s") (auto simp: iter_next_eq iter_next_set wf_iff less_Suc_eq)

lemma wf_iter_return: "wf w \<Longrightarrow> wf (snd (iter_return s w))"
  by (auto simp: iter_return_eq wf_iff less_Suc_eq)

lemma run_Next:
  "run (Next s # ops) w =
     (length (promises w) # fst (run ops (snd (iter_next s w))), snd (run ops (snd (iter_next s w))))"
  by (simp add: case_prod_beta)

lemma run_Return:
  "run (Return s # ops) w =
     (length (promises w) # fst (run ops (snd (iter_return s w))),
      snd (run ops (snd (iter_return s w))))"
  by (simp add: case_prod_beta)

lemmas run_simps = run.simps(1) run_Next run_Return run.simps(4)

lemma wf_run: "wf w \<Longrightarrow> wf (snd (run ops w))"
proof (induction ops arbitrary: w)
  case (Cons x ops)
  then show ?case
    by (cases x) (simp_all only: run_simps snd_conv wf_iter_next wf_iter_return wf_publish)
qed simp

subsection \<open>A settled promise keeps its result\<close>

lemma settled_listener:
  "promise_state w p = Some r \<Longrightarrow> promise_state (listener l e w) p = Some r"
  by (auto simp: listener_def Let_def promise_state_resolve split: option.splits)

lemma settled_deliver:
  "promise_state w p = Some r \<Longrightarrow> promise_state (deliver t e x w) p = Some r"
  by (simp add: deliver_def settled_listener split: prod.splits)

lemma settled_fold:
  "promise_state w p = Some r \<Longrightarrow> promise_state (fold (deliver t e) xs w) p = Some r"
  by (induction xs arbitrary: w) (simp_all add: settled_deliver)

lemma settled_publish:
  "promise_state w p = Some r \<Longrightarrow> promise_state (publish t e w) p = Some r"
  by (simp add: publish_fold settled_fold)

lemma settled_iter_next:
  "promise_state w p = Some r \<Longrightarrow> promise_state (snd (iter_next s w)) p = Some r"
  by (simp add: promise_state_iter_next)

lemma settled_iter_return:
  "promise_state w p = Some r \<Longrightarrow> promise_state (snd (iter_return s w)) p = Some r"
  by (frule promise_state_Some_length) (simp add: promise_state_iter_return)

lemma settled_run:
  "promise_state w p = Some r \<Longrightarrow> promise_state (snd (run ops w)) p = Some r"
proof (induction ops arbitrary: w)
  case (Cons x ops)
  then show ?case
    by (cases x)
       (simp_all only: run_simps snd_conv settled_iter_next settled_iter_return settled_publish)
qed simp

subsection \<open>What one publish does to promises and closures\<close>

lemma listener_resolveNext_mono:
  "lc_resolveNext (closures (listener l' e w) ! l) = Some p
     \<Longrightarrow> lc_resolveNext (closures w ! l) = Some p"
  by (cases "l' < length (closures w)"; cases "l = l'")
     (auto simp: listener_def Let_def list_update_beyond split: option.splits)

lemma deliver_resolveNext_mono:
  "lc_resolveNext (closures (deliver t e x w) ! l) = Some p
     \<Longrightarrow> lc_resolveNext (closures w ! l) = Some p"
  by (auto simp: deliver_def split: prod.splits if_splits dest: listener_resolveNext_mono)

lemma fold_resolveNext_mono:
  "lc_resolveNext (closures (fold (deliver t e) xs w) ! l) = Some p
     \<Longrightarrow> lc_resolveNext (closures w ! l) = Some p"
  by (induction xs arbitrary: w) (auto dest: deliver_resolveNext_mono)

lemma publish_resolveNext_mono:
  "lc_resolveNext (closures (publish t e w) ! l) = Some p
     \<Longrightarrow> lc_resolveNext (closures w ! l) = Some p"
  by (rule fold_resolveNext_mono[where t = t and e = e and xs = "subscriptions (pubsub w)"])
     (simp add: publish_fold)

lemma listener_other_promise:
  assumes "l < length (closures w)" "lc_resolveNext (closures w ! l) \<noteq> Some p"
  shows "promise_state (listener l e w) p = promise_state w p"
  using assms by (auto simp: listener_eq promise_state_resolve split: option.splits)

lemma listener_other_closure:
  "l \<noteq> l' \<Longrightarrow> closures (listener l' e w) ! l = closures w ! l"
  by (auto simp: listener_def Let_def split: option.splits)

lemma nohold_deliver: "nohold t p w \<Longrightarrow> nohold t p (deliver t' e x w)"
  unfolding nohold_def by (auto dest: deliver_resolveNext_mono)

lemma deliver_nohold_promise:
  assumes "wf w" "x \<in> set (subscriptions (pubsub w))" "nohold t p w"
  shows "promise_state (deliver t e x w) p = promise_state w p"
proof (cases x)
  case (fields h t' l)
  show ?thesis
  proof (cases "t' = t")
    case True
    with fields assms have "l < length (closures w)" "lc_resolveNext (closures w ! l) \<noteq> Some p"
      by (auto simp: nohold_def dest: wf_entry)
    with True fields show ?thesis by (simp add: deliver_def listener_other_promise)
  qed (simp add: deliver_def fields)
qed

lemma publish_nohold_promise:
  assumes "wf w" "nohold t p w"
  shows "promise_state (publish t e w) p = promise_state w p"
proof -
  let ?P = "\<lambda>v. wf v \<and> pubsub v = pubsub w \<and> nohold t p v \<and> promise_state v p = promise_state w p"
  have "?P (fold (deliver t e) (subscriptions (pubsub w)) w)"
    by (rule fold_deliver_inv)
       (use assms in \<open>auto simp: wf_deliver nohold_deliver deliver_nohold_promise\<close>)
  then show ?thesis by (simp add: publish_fold)
qed

lemma deliver_unregistered_closure:
  assumes "\<forall>h. (h, t, l) \<notin> set xs" "x \<in> set xs"
  shows "closures (deliver t e x w) ! l = closures w ! l"
  using assms by (cases x) (auto simp: deliver_def intro!: listener_other_closure)

lemma fold_unregistered_closure:
  "\<forall>h. (h, t, l) \<notin> set xs \<Longrightarrow> closures (fold (deliver t e) xs w) ! l = closures w ! l"
proof (induction xs arbitrary: w)
  case (Cons x xs)
  then have "closures (deliver t e x w) ! l = closures w ! l"
    by (intro deliver_unregistered_closure[where xs = "x # xs"]) auto
  with Cons show ?case by simp
qed simp

lemma publish_unregistered_closure:
  "\<forall>h. (h, t, l) \<notin> set (subscriptions (pubsub w))
     \<Longrightarrow> closures (publish t e w) ! l = closures w ! l"
  by (simp add: publish_fold fold_unregistered_closure)

text \<open>A publish to the topic of a listener that holds the resolver of a pending promise
  settles the promise with the event.\<close>

lemma listener_resolves:
  assumes "wf w" "l < length (closures w)" "lc_resolveNext (closures w ! l) = Some p"
    "promise_state w p = None"
  shows "promise_state (listener l e w) p = Some \<lparr>ir_value = Some e, ir_done = False\<rparr>"
  using assms wf_nth[OF assms(1,2,3)] by (simp add: listener_eq promise_state_resolve)

lemma fold_resolves:
  assumes "(h, t, l) \<in> set xs" "set xs \<subseteq> set (subscriptions (pubsub w))" "wf w"
    "promise_state w p = Some \<lparr>ir_value = Some e, ir_done = False\<rparr> \<or>
     (promise_state w p = None \<and> lc_resolveNext (closures w ! l) = Some p)"
  shows "promise_state (fold (deliver t e) xs w) p = Some \<lparr>ir_value = Some e, ir_done = False\<rparr>"
  using assms
proof (induction xs arbitrary: w)
  case (Cons x xs)
  let ?r = "\<lparr>ir_value = Some e, ir_done = False\<rparr>"
  have xin: "x \<in> set (subscriptions (pubsub w))" using Cons.prems(2) by simp
  have wf': "wf (deliver t e x w)" using Cons.prems(3) xin by (rule wf_deliver)
  show ?case
  proof (cases "promise_state w p = Some ?r")
    case True
    then show ?thesis by (simp add: settled_fold settled_deliver)
  next
    case False
    with Cons.prems(4) have pend: "promise_state w p = None"
      and held: "lc_resolveNext (closures w ! l) = Some p" by auto
    show ?thesis
    proof (cases "x = (h, t, l)")
      case True
      have "l < length (closures w)" using Cons.prems(3) xin True by (auto dest: wf_entry)
      then have "promise_state (deliver t e x w) p = Some ?r"
        using True Cons.prems(3) held pend by (simp add: deliver_def listener_resolves)
      then show ?thesis by (simp add: settled_fold)
    next
      case False
      with Cons.prems(1) have mem: "(h, t, l) \<in> set xs" by simp
      have sub: "set xs \<subseteq> set (subscriptions (pubsub (deliver t e x w)))"
        using Cons.prems(2) by simp
      have step: "promise_state (deliver t e x w) p = Some ?r \<or>
          (promise_state (deliver t e x w) p = None \<and>
           lc_resolveNext (closures (deliver t e x w) ! l) = Some p)"
      proof (cases x)
        case (fields h' t' l')
        have l': "l' < length (closures w)" using Cons.prems(3) xin fields by (auto dest: wf_entry)
        show ?thesis
        proof (cases "t' = t")
          case False
          then show ?thesis using fields pend held by (simp add: deliver_def)
        next
          case t: True
          show ?thesis
          proof (cases "lc_resolveNext (closures w ! l') = Some p")
            case True
            then show ?thesis
              using fields t l' Cons.prems(3) pend by (simp add: deliver_def listener_resolves)
          next
            case False
            then have "l \<noteq> l'" using held by auto
            then show ?thesis
              using fields t l' False pend held
              by (simp add: deliver_def listener_other_promise listener_other_closure)
          qed
        qed
      qed
      show ?thesis using Cons.IH[OF mem sub wf' step] by simp
    qed
  qed
qed simp

lemma publish_resolves:
  assumes "wf w" "(h, t, l) \<in> set (subscriptions (pubsub w))"
    "lc_resolveNext (closures w ! l) = Some p" "promise_state w p = None"
  shows "promise_state (publish t e w) p = Some \<lparr>ir_value = Some e, ir_done = False\<rparr>"
proof -
  have "promise_state (fold (deliver t e) (subscriptions (pubsub w)) w) p
          = Some \<lparr>ir_value = Some e, ir_done = False\<rparr>"
    using assms by (intro fold_resolves[where h = h and l = l]) auto
  then show ?thesis by (simp add: publish_fold)
qed

subsection \<open>Promises along a run\<close>

lemma nohold_publish: "nohold t p w \<Longrightarrow> nohold t p (publish t' e w)"
  unfolding nohold_def by (auto dest: publish_resolveNext_mono)

lemma nohold_iter_next:
  assumes "wf w" "nohold t p w" "p < length (promises w)"
  shows "nohold t p (snd (iter_next s w))"
proof (cases "iterator s")
  case None
  show ?thesis
    using assms unfolding nohold_def
    by (auto simp: iter_next_eq[OF None] nth_append dest: wf_entry)
next
  case (Some u)
  show ?thesis using assms unfolding nohold_def by (simp add: iter_next_set[OF Some])
qed

lemma nohold_iter_return: "nohold t p w \<Longrightarrow> nohold t p (snd (iter_return s w))"
  unfolding nohold_def by (simp add: iter_return_eq)

lemma idle_publish: "idle p w \<Longrightarrow> idle p (publish t e w)"
  by (simp add: idle_def nohold_publish)

lemma idle_iter_next: "wf w \<Longrightarrow> idle p w \<Longrightarrow> idle p (snd (iter_next s w))"
  by (simp add: idle_def nohold_iter_next)

lemma idle_iter_return: "idle p w \<Longrightarrow> idle p (snd (iter_return s w))"
  by (simp add: idle_def nohold_def iter_return_eq)

lemma idle_run:
  "wf w \<Longrightarrow> idle p w \<Longrightarrow> promise_state (snd (run ops w)) p = promise_state w p"
proof (induction ops arbitrary: w)
  case (Cons x ops)
  show ?case
  proof (cases x)
    case (Next s)
    have "promise_state (snd (run ops (snd (iter_next s w)))) p
            = promise_state (snd (iter_next s w)) p"
      using Cons.prems by (intro Cons.IH wf_iter_next idle_iter_next)
    then show ?thesis by (simp only: Next run_simps snd_conv promise_state_iter_next)
  next
    case (Return s)
    have "promise_state (snd (run ops (snd (iter_return s w)))) p
            = promise_state (snd (iter_return s w)) p"
      using Cons.prems by (intro Cons.IH wf_iter_return idle_iter_return)
    moreover have "p \<noteq> length (promises w)" using Cons.prems(2) by (simp add: idle_def)
    ultimately show ?thesis by (simp only: Return run_simps snd_conv promise_state_iter_return if_False)
  next
    case (Publish t e)
    have "promise_state (snd (run ops (publish t e w))) p = promise_state (publish t e w) p"
      using Cons.prems by (intro Cons.IH wf_publish idle_publish)
    moreover have "promise_state (publish t e w) p = promise_state w p"
      using Cons.prems by (intro publish_nohold_promise) (simp_all add: idle_def)
    ultimately show ?thesis by (simp only: Publish run_simps)
  qed
qed simp

lemma armed_iter_next:
  assumes "wf w" "armed t p w"
  shows "armed t p (snd (iter_next s' w))"
proof -
  from assms(2) obtain h l where hl: "(h, t, l) \<in> set (subscriptions (pubsub w))"
    "lc_resolveNext (closures w ! l) = Some p" by (auto simp: armed_def)
  then have l: "l < length (closures w)" using assms(1) by (auto dest: wf_entry)
  have "\<exists>h l. (h, t, l) \<in> set (subscriptions (pubsub (snd (iter_next s' w)))) \<and>
          lc_resolveNext (closures (snd (iter_next s' w)) ! l) = Some p"
    using hl l by (cases "iterator s'") (auto simp: iter_next_eq iter_next_set nth_append)
  with assms show ?thesis
    by (simp add: armed_def nohold_iter_next promise_state_iter_next)
qed

lemma armed_iter_return: "armed t p w \<Longrightarrow> armed t p (snd (iter_return s' w))"
  by (auto simp: armed_def nohold_iter_return promise_state_iter_return)
     (auto simp: iter_return_eq)

lemma armed_publish_other:
  assumes "wf w" "armed t p w" "t' \<noteq> t"
  shows "armed t p (publish t' e w)"
proof -
  from assms(2) obtain h l where hl: "(h, t, l) \<in> set (subscriptions (pubsub w))"
    "lc_resolveNext (closures w ! l) = Some p" by (auto simp: armed_def)
  have nh: "nohold t' p w" using assms(2,3) by (simp add: armed_def)
  then have "\<forall>h'. (h', t', l) \<notin> set (subscriptions (pubsub w))"
    using hl(2) by (auto simp: nohold_def)
  then have "closures (publish t' e w) ! l = closures w ! l"
    by (rule publish_unregistered_closure)
  with hl have "\<exists>h l. (h, t, l) \<in> set (subscriptions (pubsub (publish t' e w))) \<and>
          lc_resolveNext (closures (publish t' e w) ! l) = Some p"
    by (intro exI[of _ h] exI[of _ l]) simp
  moreover have "promise_state (publish t' e w) p = None"
    using assms(1,2) nh by (simp add: publish_nohold_promise armed_def)
  ultimately show ?thesis using assms(2) by (simp add: armed_def nohold_publish)
qed

lemma armed_publish_same:
  assumes "wf w" "armed t p w"
  shows "promise_state (publish t e w) p = Some \<lparr>ir_value = Some e, ir_done = False\<rparr>"
  using assms by (auto simp: armed_def intro: publish_resolves)

lemma armed_run:
  "wf w \<Longrightarrow> armed t p w \<Longrightarrow> promise_state (snd (run ops w)) p = first_publish t ops"
proof (induction ops arbitrary: w)
  case Nil
  then show ?case by (simp add: armed_def)
next
  case (Cons x ops)
  show ?case
  proof (cases x)
    case (Next s)
    have "promise_state (snd (run ops (snd (iter_next s w)))) p = first_publish t ops"
      using Cons.prems by (intro Cons.IH wf_iter_next armed_iter_next)
    then show ?thesis by (simp only: Next run_simps snd_conv first_publish.simps)
  next
    case (Return s)
    have "promise_state (snd (run ops (snd (iter_return s w)))) p = first_publish t ops"
      using Cons.prems by (intro Cons.IH wf_iter_return armed_iter_return)
    then show ?thesis by (simp only: Return run_simps snd_conv first_publish.simps)
  next
    case (Publish t' e)
    show ?thesis
    proof (cases "t' = t")
      case True
      have "promise_state (publish t e w) p = Some \<lparr>ir_value = Some e, ir_done = False\<rparr>"
        using Cons.prems by (rule armed_publish_same)
      then have "promise_state (snd (run ops (publish t e w))) p
                   = Some \<lparr>ir_value = Some e, ir_done = False\<rparr>"
        by (rule settled_run)
      then show ?thesis by (simp add: Publish True)
    next
      case False
      have "promise_state (snd (run ops (publish t' e w))) p = first_publish t ops"
        using Cons.prems False by (intro Cons.IH wf_publish armed_publish_other)
      then show ?thesis by (simp add: Publish False)
    qed
  qed
qed

lemma armed_after_next:
  assumes "wf w" "iterator s = None"
  shows "armed (topicName s) (length (promises w)) (snd (iter_next s w))"
proof -
  let ?p = "length (promises w)" and ?l = "length (closures w)"
  let ?w1 = "snd (iter_next s w)"
  have fresh: "lc_resolveNext (closures w ! l) \<noteq> Some ?p"
    if "(h, t, l) \<in> set (subscriptions (pubsub w))" for h t l
    using wf_nth[OF assms(1) wf_entry[OF assms(1) that]] by auto
  have "(subIdCounter (pubsub w) + 1, topicName s, ?l) \<in> set (subscriptions (pubsub ?w1)) \<and>
        lc_resolveNext (closures ?w1 ! ?l) = Some ?p"
    by (simp add: iter_next_eq[OF assms(2)])
  then have ex: "\<exists>h l. (h, topicName s, l) \<in> set (subscriptions (pubsub ?w1)) \<and>
        lc_resolveNext (closures ?w1 ! l) = Some ?p"
    by blast
  have "nohold t' ?p ?w1" if "t' \<noteq> topicName s" for t'
    using fresh that assms(1)
    by (auto simp: nohold_def iter_next_eq[OF assms(2)] nth_append dest: wf_entry)
  with ex show ?thesis
    by (simp add: armed_def promise_state_def)
qed

lemma idle_after_next:
  assumes "wf w" "iterator s = Some u"
  shows "idle (length (promises w)) (snd (iter_next s w))"
proof -
  have "lc_resolveNext (closures w ! l) \<noteq> Some (length (promises w))"
    if "(h, t, l) \<in> set (subscriptions (pubsub w))" for h t l
    using wf_nth[OF assms(1) wf_entry[OF assms(1) that]] by auto
  then show ?thesis
    using assms by (auto simp: idle_def nohold_def iter_next_set)
qed

lemma outcomes_expected: "wf w \<Longrightarrow> outcomes ops w = expected ops"
proof (induction ops arbitrary: w)
  case Nil
  show ?case by (simp add: outcomes_def)
next
  case (Cons x ops)
  show ?case
  proof (cases x)
    case (Next s)
    let ?w1 = "snd (iter_next s w)"
    have wf1: "wf ?w1" using Cons.prems by (rule wf_iter_next)
    have tl: "outcomes ops ?w1 = expected ops" using wf1 by (rule Cons.IH)
    have hd: "promise_state (snd (run ops ?w1)) (length (promises w))
                = (if iterator s = None then first_publish (topicName s) ops else None)"
    proof (cases "iterator s")
      case None
      then show ?thesis
        using armed_run[OF wf1 armed_after_next[OF Cons.prems None]] by simp
    next
      case (Some u)
      then show ?thesis
        using idle_run[OF wf1 idle_after_next[OF Cons.prems Some]]
        by (simp add: promise_state_iter_next promise_state_def)
    qed
    show ?thesis
      using tl hd by (simp add: Next outcomes_def run_Next del: run.simps)
  next
    case (Return s)
    let ?w1 = "snd (iter_return s w)"
    have wf1: "wf ?w1" using Cons.prems by (rule wf_iter_return)
    have tl: "outcomes ops ?w1 = expected ops" using wf1 by (rule Cons.IH)
    have "promise_state ?w1 (length (promises w)) = Some \<lparr>ir_value = None, ir_done = True\<rparr>"
      by (simp add: promise_state_iter_return)
    then have hd: "promise_state (snd (run ops ?w1)) (length (promises w))
                     = Some \<lparr>ir_value = None, ir_done = True\<rparr>"
      by (rule settled_run)
    show ?thesis
      using tl hd by (simp add: Return outcomes_def run_Return del: run.simps)
  next
    case (Publish t e)
    have "outcomes ops (publish t e w) = expected ops"
      using Cons.prems by (intro Cons.IH wf_publish)
    then show ?thesis by (simp add: Publish outcomes_def)
  qed
qed

subsection \<open>The bus registry\<close>

lemma listeners_for_iter_next:
  "listeners_for t (snd (iter_next s w)) =
     listeners_for t w @ (if iterator s = None \<and> topicName s = t then [length (closures w)] else [])"
  by (cases "iterator s") (auto simp: listeners_for_def iter_next_eq iter_next_set)

lemma listeners_for_iter_return [simp]:
  "listeners_for t (snd (iter_return s w)) = listeners_for t w"
  by (simp add: listeners_for_def iter_return_eq)

lemma listeners_for_publish [simp]: "listeners_for t (publish t' e w) = listeners_for t w"
  by (simp add: listeners_for_def)

lemma listeners_for_run_prefix: "prefix (listeners_for t w) (listeners_for t (snd (run ops w)))"
proof (induction ops arbitrary: w)
  case (Cons x ops)
  show ?case
  proof (cases x)
    case (Next s)
    have "prefix (listeners_for t w) (listeners_for t (snd (iter_next s w)))"
      by (simp add: listeners_for_iter_next)
    also have "prefix \<dots> (listeners_for t (snd (run ops (snd (iter_next s w)))))"
      by (rule Cons.IH)
    finally show ?thesis by (simp only: Next run_simps snd_conv)
  next
    case (Return s)
    show ?thesis using Cons.IH[of "snd (iter_return s w)"] by (simp only: Return run_simps snd_conv listeners_for_iter_return)
  next
    case (Publish t' e)
    show ?thesis using Cons.IH[of "publish t' e w"] by (simp add: Publish)
  qed
qed simp

lemma snd_run_append: "snd (run (xs @ ys) w) = snd (run ys (snd (run xs w)))"
proof (induction xs arbitrary: w)
  case (Cons x xs)
  then show ?case by (cases x) (simp_all only: append_Cons run_simps snd_conv)
qed simp

lemma listeners_for_nexts:
  "iterator s = None \<Longrightarrow>
   length (listeners_for (topicName s) (snd (run (replicate n (Next s)) w)))
     = length (listeners_for (topicName s) w) + n"
proof (induction n arbitrary: w)
  case (Suc n)
  then show ?case
    by (simp only: replicate_Suc run_simps snd_conv) (simp add: listeners_for_iter_next)
qed simp

subsection \<open>sendMessage\<close>

lemma fst_sendMessage:
  "fst (sendMessage now c sid cid w) =
     \<lparr>msg_id = string_of_nat (length (messages w) + 1), content = c, createdAt = now,
      senderId = sid, channelId = cid\<rparr>"
  by (simp add: sendMessage_def Let_def)

lemma snd_sendMessage:
  "snd (sendMessage now c sid cid w) =
     publish (topic_of cid) (MessageAdded (fst (sendMessage now c sid cid w)))
       (push_message (fst (sendMessage now c sid cid w)) w)"
  by (simp add: sendMessage_def Let_def)

lemma messages_sendMessage:
  "messages (snd (sendMessage now c sid cid w)) = messages w @ [fst (sendMessage now c sid cid w)]"
  by (simp add: snd_sendMessage)

lemma Message_sender_None:
  "Message_sender m = None \<longleftrightarrow> senderId m \<notin> set (map user_id users)"
  by (auto simp: Message_sender_def users_def)

subsection \<open>The message store does not matter to the bus\<close>

lemma init_world_fields [simp]:
  "promises init_world = []"
  "closures init_world = []"
  "messages init_world = []"
  "subscriptions (pubsub init_world) = []"
  "journal init_world = []"
  by (simp_all add: init_world_def)

lemma messageAdded_subscribe_simps [simp]:
  "snd (messageAdded_subscribe cid w) = w"
  "topicName (fst (messageAdded_subscribe cid w)) = topic_of cid"
  "iterator (fst (messageAdded_subscribe cid w)) = None"
  by (simp_all add: messageAdded_subscribe_def)

lemma wf_sendMessage: "wf w \<Longrightarrow> wf (snd (sendMessage now c sid cid w))"
  by (simp add: snd_sendMessage wf_publish)

lemma nohold_push_message [simp]: "nohold t p (push_message m w) = nohold t p w"
  by (simp add: nohold_def)

lemma armed_push_message [simp]: "armed t p (push_message m w) = armed t p w"
  by (simp add: armed_def)

subsection \<open>Pulls that follow publishes\<close>

lemma run_publishes: "run (map (Publish t) es @ ops) w = run ops (fold (publish t) es w)"
  by (induction es arbitrary: w) simp_all

lemma run_nexts:
  "fst (run (replicate n (Next s)) w) = [length (promises w) ..< length (promises w) + n] \<and>
   promises (snd (run (replicate n (Next s)) w)) = promises w @ replicate n None"
proof (induction n arbitrary: w)
  case (Suc n)
  have "fst (run (replicate n (Next s)) (snd (iter_next s w)))
          = [Suc (length (promises w)) ..< Suc (length (promises w)) + n]"
    and "promises (snd (run (replicate n (Next s)) (snd (iter_next s w))))
          = (promises w @ [None]) @ replicate n None"
    using Suc[of "snd (iter_next s w)"] by simp_all
  then show ?case
    by (simp only: replicate_Suc run_Next fst_conv snd_conv) (simp add: upt_conv_Cons)
qed simp

lemma outcomes_nexts: "outcomes (replicate n (Next s)) w = replicate n None"
proof -
  have "promise_state (snd (run (replicate n (Next s)) w)) (length (promises w) + i) = None"
    if "i < n" for i
    using that by (simp add: promise_state_def run_nexts nth_append)
  then show ?thesis
    by (simp add: outcomes_def run_nexts list_eq_iff_nth_eq)
qed

subsection \<open>Outstanding pulls\<close>

lemma map_filter_all_None: "(\<And>x. x \<in> set xs \<Longrightarrow> f x = None) \<Longrightarrow> List.map_filter f xs = []"
  by (induction xs) (simp_all add: map_filter_simps)

lemma map_filter_cong_set:
  "(\<And>x. x \<in> set xs \<Longrightarrow> f x = g x) \<Longrightarrow> List.map_filter f xs = List.map_filter g xs"
  by (induction xs) (auto simp: map_filter_simps split: option.splits)

lemma map_filter_snoc:
  "List.map_filter f (xs @ [y]) = List.map_filter f xs @ (case f y of None \<Rightarrow> [] | Some v \<Rightarrow> [v])"
  by (induction xs) (simp_all add: map_filter_simps split: option.splits)

lemma in_listeners_for:
  "l \<in> set (listeners_for t w) \<longleftrightarrow> (\<exists>h. (h, t, l) \<in> set (subscriptions (pubsub w)))"
  by (force simp: listeners_for_def)

lemma fold_clears:
  assumes "(h, t, l) \<in> set xs" "set xs \<subseteq> set (subscriptions (pubsub w))" "wf w"
  shows "lc_resolveNext (closures (fold (deliver t e) xs w) ! l) = None"
  using assms
proof (induction xs arbitrary: w)
  case (Cons x xs)
  have xin: "x \<in> set (subscriptions (pubsub w))" using Cons.prems(2) by simp
  show ?case
  proof (cases "x = (h, t, l)")
    case True
    have "l < length (closures w)" using Cons.prems(3) xin True by (auto dest: wf_entry)
    then have now: "lc_resolveNext (closures (deliver t e x w) ! l) = None"
      by (simp add: True deliver_def listener_eq)
    show ?thesis
    proof (cases "lc_resolveNext (closures (fold (deliver t e) (x # xs) w) ! l)")
      case (Some p)
      then have "lc_resolveNext (closures (fold (deliver t e) xs (deliver t e x w)) ! l) = Some p"
        by simp
      then have "lc_resolveNext (closures (deliver t e x w) ! l) = Some p"
        by (rule fold_resolveNext_mono)
      with now show ?thesis by simp
    qed simp
  next
    case False
    with Cons.prems(1) have "(h, t, l) \<in> set xs" by simp
    moreover have "set xs \<subseteq> set (subscriptions (pubsub (deliver t e x w)))"
      using Cons.prems(2) by simp
    moreover have "wf (deliver t e x w)" using Cons.prems(3) xin by (rule wf_deliver)
    ultimately show ?thesis using Cons.IH by simp
  qed
qed simp

lemma held_publish:
  assumes "wf w"
  shows "held t (publish t e w) = []"
proof -
  have "lc_resolveNext (closures (publish t e w) ! l) = None"
    if "l \<in> set (listeners_for t w)" for l
  proof -
    from that obtain h where "(h, t, l) \<in> set (subscriptions (pubsub w))"
      by (auto simp: in_listeners_for)
    then have "lc_resolveNext (closures (fold (deliver t e) (subscriptions (pubsub w)) w) ! l) = None"
      using assms by (intro fold_clears[where h = h]) simp_all
    then show ?thesis by (simp add: publish_fold)
  qed
  then show ?thesis
    unfolding held_def by (intro map_filter_all_None) simp
qed

lemma held_iter_next:
  assumes "wf w" "iterator s = None"
  shows "held (topicName s) (snd (iter_next s w))
           = held (topicName s) w @ [length (promises w)]"
proof -
  have old: "lc_resolveNext (closures (snd (iter_next s w)) ! l) = lc_resolveNext (closures w ! l)"
    if "l \<in> set (listeners_for (topicName s) w)" for l
  proof -
    from that assms(1) have "l < length (closures w)"
      by (auto simp: in_listeners_for dest: wf_entry)
    then show ?thesis by (simp add: iter_next_eq[OF assms(2)] nth_append)
  qed
  have new: "lc_resolveNext (closures (snd (iter_next s w)) ! length (closures w))
               = Some (length (promises w))"
    by (simp add: iter_next_eq[OF assms(2)])
  show ?thesis
    unfolding held_def
    by (simp add: listeners_for_iter_next assms(2) map_filter_snoc new
        map_filter_cong_set[OF old])
qed

lemma set_map_filter: "set (List.map_filter f xs) = {y. \<exists>x\<in>set xs. f x = Some y}"
  by (induction xs) (auto simp: map_filter_simps split: option.splits)

lemma in_held:
  "p \<in> set (held t w) \<longleftrightarrow>
     (\<exists>h l. (h, t, l) \<in> set (subscriptions (pubsub w)) \<and> lc_resolveNext (closures w ! l) = Some p)"
  by (simp add: held_def set_map_filter Bex_def in_listeners_for) blast

lemma held_bound: "wf w \<Longrightarrow> p \<in> set (held t w) \<Longrightarrow> p < length (promises w)"
  by (auto simp: in_held dest: wf_nth[OF _ wf_entry])

lemma in_outstanding:
  "p \<in> set (outstanding t w) \<longleftrightarrow>
     p \<in> set (held t w) \<and> p < length (promises w) \<and> promises w ! p = None"
  by (auto simp: outstanding_def)

lemma outstanding_publish: "wf w \<Longrightarrow> outstanding t (publish t e w) = []"
  by (simp add: outstanding_def held_publish)

lemma outstanding_resolved:
  assumes "wf w" "p \<in> set (outstanding t w)"
  shows "promise_state (publish t e w) p = Some \<lparr>ir_value = Some e, ir_done = False\<rparr>"
proof -
  from assms(2) obtain h l where "(h, t, l) \<in> set (subscriptions (pubsub w))"
    "lc_resolveNext (closures w ! l) = Some p" and "promise_state w p = None"
    by (auto simp: in_outstanding in_held promise_state_def)
  with assms(1) show ?thesis by (intro publish_resolves)
qed

lemma outstanding_iter_next:
  assumes "wf w" "iterator s = None"
  shows "outstanding (topicName s) (snd (iter_next s w))
           = outstanding (topicName s) w @ [length (promises w)]"
proof -
  have "(q < Suc (length (promises w)) \<and> (promises w @ [None]) ! q = None)
          = (q < length (promises w) \<and> promises w ! q = None)"
    if "q \<in> set (held (topicName s) w)" for q
    using held_bound[OF assms(1) that] by (simp add: nth_append)
  then have "filter (\<lambda>q. q < Suc (length (promises w)) \<and> (promises w @ [None]) ! q = None)
                (held (topicName s) w)
              = filter (\<lambda>q. q < length (promises w) \<and> promises w ! q = None) (held (topicName s) w)"
    by (intro filter_cong) simp_all
  then show ?thesis
    by (simp add: outstanding_def held_iter_next[OF assms])
qed

subsection \<open>No listener holds both an event and a pull\<close>

lemma unbuffered_init: "unbuffered init_world"
  by (simp add: unbuffered_def)

lemma unbuffered_listener:
  assumes "unbuffered w"
  shows "unbuffered (listener l e w)"
proof (cases "l < length (closures w)")
  case True
  with assms show ?thesis
    by (auto simp: unbuffered_def list_all_iff listener_eq split: option.splits
        dest!: in_set_updateD)
next
  case False
  then have "closures (listener l e w) = closures w"
    by (simp add: listener_def Let_def list_update_beyond split: option.splits)
  with assms show ?thesis by (simp add: unbuffered_def)
qed

lemma unbuffered_publish:
  assumes "unbuffered w"
  shows "unbuffered (publish t e w)"
proof -
  have "unbuffered (fold (deliver t e) (subscriptions (pubsub w)) w)"
    by (rule fold_deliver_inv) (use assms in \<open>auto simp: deliver_def unbuffered_listener\<close>)
  then show ?thesis by (simp add: publish_fold unbuffered_def)
qed

lemma unbuffered_iter_next: "unbuffered w \<Longrightarrow> unbuffered (snd (iter_next s w))"
  by (cases "iterator s") (simp_all add: unbuffered_def iter_next_eq iter_next_set)

lemma unbuffered_iter_return: "unbuffered w \<Longrightarrow> unbuffered (snd (iter_return s w))"
  by (simp add: unbuffered_def iter_return_eq)

lemma unbuffered_run: "unbuffered w \<Longrightarrow> unbuffered (snd (run ops w))"
proof (induction ops arbitrary: w)
  case (Cons x ops)
  then show ?case
    by (cases x)
       (simp_all only: run_simps snd_conv unbuffered_iter_next unbuffered_iter_return
          unbuffered_publish)
qed simp

subsection \<open>Listeners of different topics hold different promises\<close>

lemma apart_iff:
  "apart w \<longleftrightarrow>
     (\<forall>h t l h' t' l' p. (h, t, l) \<in> set (subscriptions (pubsub w)) \<longrightarrow>
        (h', t', l') \<in> set (subscriptions (pubsub w)) \<longrightarrow>
        lc_resolveNext (closures w ! l) = Some p \<longrightarrow>
        lc_resolveNext (closures w ! l') = Some p \<longrightarrow> t = t')"
  unfolding apart_def by (auto; force)

lemma apart_init: "apart init_world"
  by (simp add: apart_def)

lemma apart_push_message [simp]: "apart (push_message m w) = apart w"
  by (simp add: apart_def)

lemma apart_publish: "apart w \<Longrightarrow> apart (publish t e w)"
  unfolding apart_iff by (simp, blast dest: publish_resolveNext_mono)

lemma apart_iter_return: "apart w \<Longrightarrow> apart (snd (iter_return s w))"
  by (simp add: apart_def iter_return_eq)

lemma apart_iter_next:
  assumes "wf w" "apart w"
  shows "apart (snd (iter_next s w))"
proof (cases "iterator s")
  case (Some u)
  with assms(2) show ?thesis by (simp add: apart_def iter_next_set)
next
  case None
  have old: "lc_resolveNext (closures w ! l) \<noteq> Some (length (promises w))"
    if "(h, t, l) \<in> set (subscriptions (pubsub w))" for h t l
    using wf_nth[OF assms(1) wf_entry[OF assms(1) that]] by auto
  have bound: "l < length (closures w)"
    if "(h, t, l) \<in> set (subscriptions (pubsub w))" for h t l
    using wf_entry[OF assms(1) that] .
  show ?thesis
    unfolding apart_iff using assms(2)[unfolded apart_iff] old bound
    by (auto simp: iter_next_eq[OF None] nth_append)
qed

lemma apart_run: "wf w \<Longrightarrow> apart w \<Longrightarrow> apart (snd (run ops w))"
proof (induction ops arbitrary: w)
  case (Cons x ops)
  show ?case
  proof (cases x)
    case (Next s)
    show ?thesis
      using Cons.IH[OF wf_iter_next[OF Cons.prems(1)] apart_iter_next[OF Cons.prems]]
      by (simp only: Next run_simps snd_conv)
  next
    case (Return s)
    show ?thesis
      using Cons.IH[OF wf_iter_return[OF Cons.prems(1)] apart_iter_return[OF Cons.prems(2)]]
      by (simp only: Return run_simps snd_conv)
  next
    case (Publish t e)
    show ?thesis
      using Cons.IH[OF wf_publish[OF Cons.prems(1)] apart_publish[OF Cons.prems(2)]]
      by (simp only: Publish run_simps)
  qed
qed simp

lemma unbuffered_push_message [simp]: "unbuffered (push_message m w) = unbuffered w"
  by (simp add: unbuffered_def)

lemma unbuffered_sendMessage: "unbuffered w \<Longrightarrow> unbuffered (snd (sendMessage now c sid cid w))"
  by (simp add: snd_sendMessage unbuffered_publish)

lemma apart_sendMessage: "apart w \<Longrightarrow> apart (snd (sendMessage now c sid cid w))"
  by (simp add: snd_sendMessage apart_publish)

lemma apart_nohold:
  assumes "apart w" "p \<in> set (held t' w)" "t \<noteq> t'"
  shows "nohold t p w"
  using assms unfolding apart_iff nohold_def in_held by blast

text \<open>A publish leaves the outstanding pulls of every other topic as they are.\<close>

lemma held_publish_other:
  assumes "apart w" "t' \<noteq> t"
  shows "held t' (publish t e w) = held t' w"
proof -
  have "lc_resolveNext (closures (publish t e w) ! l) = lc_resolveNext (closures w ! l)"
    if "l \<in> set (listeners_for t' w)" for l
  proof (cases "lc_resolveNext (closures w ! l)")
    case None
    show ?thesis
    proof (cases "lc_resolveNext (closures (publish t e w) ! l)")
      case (Some q)
      then have "lc_resolveNext (closures w ! l) = Some q" by (rule publish_resolveNext_mono)
      with None show ?thesis by simp
    qed (simp add: None)
  next
    case (Some p)
    from that obtain h' where h': "(h', t', l) \<in> set (subscriptions (pubsub w))"
      by (auto simp: in_listeners_for)
    have "\<forall>h. (h, t, l) \<notin> set (subscriptions (pubsub w))"
      using assms h' Some unfolding apart_iff by blast
    then show ?thesis by (simp add: publish_unregistered_closure)
  qed
  then have "List.map_filter (\<lambda>l. lc_resolveNext (closures (publish t e w) ! l)) (listeners_for t' w)
               = List.map_filter (\<lambda>l. lc_resolveNext (closures w ! l)) (listeners_for t' w)"
    by (rule map_filter_cong_set)
  then show ?thesis by (simp add: held_def)
qed

lemma outstanding_publish_other:
  assumes "wf w" "apart w" "t' \<noteq> t"
  shows "outstanding t' (publish t e w) = outstanding t' w"
proof -
  have "(p < length (promises (publish t e w)) \<and> promises (publish t e w) ! p = None)
          = (p < length (promises w) \<and> promises w ! p = None)"
    if "p \<in> set (held t' w)" for p
  proof -
    have "nohold t p w" using assms(2) that assms(3)[symmetric] by (rule apart_nohold)
    then have "promise_state (publish t e w) p = promise_state w p"
      using assms(1) by (intro publish_nohold_promise)
    then show ?thesis by (auto simp: promise_state_def)
  qed
  then have "filter (\<lambda>p. p < length (promises (publish t e w)) \<and> promises (publish t e w) ! p = None)
               (held t' w)
             = filter (\<lambda>p. p < length (promises w) \<and> promises w ! p = None) (held t' w)"
    by (intro filter_cong) simp_all
  then show ?thesis
    by (simp add: outstanding_def held_publish_other[OF assms(2,3)])
qed

subsection \<open>Events published before any listener is registered\<close>

lemma fold_deliver_no_listener:
  "\<forall>entry \<in> set xs. fst (snd entry) \<noteq> t \<Longrightarrow> fold (deliver t e) xs w = w"
  by (induction xs arbitrary: w) (auto simp: deliver_def)

lemma publish_no_listener:
  assumes "listeners_for t w = []"
  shows "promises (publish t e w) = promises w" "closures (publish t e w) = closures w"
proof -
  from assms have "\<forall>entry \<in> set (subscriptions (pubsub w)). fst (snd entry) \<noteq> t"
    by (auto simp: listeners_for_def filter_empty_conv)
  then have "fold (deliver t e) (subscriptions (pubsub w)) w = w"
    by (rule fold_deliver_no_listener)
  then show "promises (publish t e w) = promises w" "closures (publish t e w) = closures w"
    by (simp_all add: publish_fold)
qed

lemma publishes_no_listener:
  assumes "listeners_for t w = []"
  shows "promises (fold (publish t) es w) = promises w \<and>
         closures (fold (publish t) es w) = closures w \<and>
         pubsub (fold (publish t) es w) = pubsub w \<and>
         messages (fold (publish t) es w) = messages w"
  using assms
proof (induction es arbitrary: w)
  case (Cons e es)
  have "listeners_for t (publish t e w) = []" using Cons.prems by simp
  from Cons.IH[OF this] show ?case
    by (simp add: publish_no_listener[OF Cons.prems])
qed simp

text \<open>The single slot of a listener holds the latest event.\<close>

lemma listener_stores:
  "l < length (closures w) \<Longrightarrow> lc_value (closures (listener l e w) ! l) = Some e"
  by (simp add: listener_eq)

lemma listener_keeps_value:
  "lc_value (closures w ! l) = Some e \<Longrightarrow> lc_value (closures (listener l' e w) ! l) = Some e"
  by (cases "l' < length (closures w)"; cases "l = l'")
     (auto simp: listener_def Let_def list_update_beyond split: option.splits)

lemma fold_keeps_value:
  "lc_value (closures w ! l) = Some e \<Longrightarrow> lc_value (closures (fold (deliver t e) xs w) ! l) = Some e"
  by (induction xs arbitrary: w) (auto simp: deliver_def listener_keeps_value)

lemma fold_stores:
  assumes "(h, t, l) \<in> set xs" "l < length (closures w)"
  shows "lc_value (closures (fold (deliver t e) xs w) ! l) = Some e"
  using assms
proof (induction xs arbitrary: w)
  case (Cons x xs)
  show ?case
  proof (cases "x = (h, t, l)")
    case True
    then have "lc_value (closures (deliver t e x w) ! l) = Some e"
      using Cons.prems(2) by (simp add: deliver_def listener_stores)
    then show ?thesis by (simp add: fold_keeps_value)
  next
    case False
    with Cons.prems(1) have "(h, t, l) \<in> set xs" by simp
    moreover have "l < length (closures (deliver t e x w))" using Cons.prems(2) by simp
    ultimately show ?thesis using Cons.IH by simp
  qed
qed simp

lemma publish_stores:
  assumes "wf w" "l \<in> set (listeners_for t w)"
  shows "lc_value (closures (publish t e w) ! l) = Some e"
proof -
  from assms(2) obtain h where h: "(h, t, l) \<in> set (subscriptions (pubsub w))"
    by (auto simp: in_listeners_for)
  then have "l < length (closures w)" using assms(1) by (auto dest: wf_entry)
  with h have "lc_value (closures (fold (deliver t e) (subscriptions (pubsub w)) w) ! l) = Some e"
    by (rule fold_stores)
  then show ?thesis by (simp add: publish_fold)
qed

subsection \<open>Pull-then-publish rounds\<close>

lemma expected_publishes: "expected (map (Publish t) pre @ ops) = expected ops"
  by (induction pre) simp_all

lemma expected_rounds:
  "iterator s = None \<Longrightarrow>
   expected (rounds s es) = map (\<lambda>e. Some \<lparr>ir_value = Some e, ir_done = False\<rparr>) es"
  by (induction es) (simp_all add: rounds_def)

lemma delivered_events:
  "delivered (map (\<lambda>e. Some \<lparr>ir_value = Some e, ir_done = False\<rparr>) es) = es"
  by (induction es) (simp_all add: delivered_def map_filter_simps)

lemma published_append: "published t (xs @ ys) = published t xs @ published t ys"
proof (induction xs)
  case (Cons x xs)
  then show ?case by (cases x) simp_all
qed simp

lemma published_publishes: "published t (map (Publish t) pre) = pre"
  by (induction pre) simp_all

lemma published_rounds: "published (topicName s) (rounds s es) = es"
  by (induction es) (simp_all add: rounds_def)


section \<open>The claims\<close>




text \<open>
  Claim C2 says that a session registers exactly one listener, at open time, reuses it for
  every pull and unregisters it at close. On the code, opening the subscription for
  channel 1 registers nothing, two calls of \<open>next()\<close> register two listeners, and both
  are still registered after \<open>return()\<close>.
\<close>

theorem one_listener_per_session_counterexample:
  "listeners_for (topicName general) (snd (messageAdded_subscribe ''1'' init_world)) = [] \<and>
   listeners_for (topicName general) (snd (run [Next general, Next general] init_world)) = [0, 1] \<and>
   listeners_for (topicName general) (snd (run [Next general, Next general, Return general] init_world)) = [0, 1]"
  by code_simp

text \<open>
  Claim C2 as amended: opening a session registers no listener and changes nothing; each
  call of \<open>next()\<close> registers one new listener for the session's topic and \<open>return()\<close>
  unregisters none, so after \<open>n\<close> pulls and a close the topic has \<open>n\<close> more listeners than
  before.
\<close>

theorem listener_per_pull:
  "(case messageAdded_subscribe cid w of (s, w0) \<Rightarrow>
      w0 = w \<and>
      length (listeners_for (topicName s) (snd (run (replicate n (Next s) @ [Return s]) w0)))
        = length (listeners_for (topicName s) w) + n)"
proof -
  let ?s = "\<lparr>topicName = topic_of cid, iterator = None\<rparr>"
  have "snd (run (replicate n (Next ?s) @ [Return ?s]) w)
          = snd (iter_return ?s (snd (run (replicate n (Next ?s)) w)))"
    by (simp only: snd_run_append run_simps snd_conv)
  then show ?thesis
    using listeners_for_nexts[of ?s n w] by (simp add: messageAdded_subscribe_def)
qed

text \<open>
  Claim C3 says that closing a session resolves its pending \<open>next()\<close> to end-of-sequence,
  unregisters its listener and makes later publishes unobservable. On the code, after
  \<open>next()\<close> and \<open>return()\<close> on the session for channel 1 the pull is still pending and its
  listener still registered, and a publish that follows resolves the pull with the event.
\<close>

theorem close_ends_pending_pull_counterexample:
  "outcomes [Next general, Return general] init_world
     = [None, Some \<lparr>ir_value = None, ir_done = True\<rparr>] \<and>
   listeners_for (topicName general) (snd (run [Next general, Return general] init_world)) = [0] \<and>
   outcomes [Next general, Return general, Publish (topicName general) (sample ''1'' ''a'')] init_world
     = [Some \<lparr>ir_value = Some (sample ''1'' ''a''), ir_done = False\<rparr>,
        Some \<lparr>ir_value = None, ir_done = True\<rparr>]"
  by code_simp

text \<open>
  Claim C3 as amended: \<open>return()\<close> gives end-of-sequence to its own caller, each time it is
  called, and changes neither the bus nor any closure. A \<open>next()\<close> that is pending when
  \<open>return()\<close> is called stays pending, and a later publish to the session's topic resolves
  it with the published event.
\<close>

theorem return_only_answers_itself:
  "wf w \<Longrightarrow> iterator s = None \<Longrightarrow>
   outcomes [Next s, Return s] w = [None, Some \<lparr>ir_value = None, ir_done = True\<rparr>] \<and>
   pubsub (snd (iter_return s w)) = pubsub w \<and>
   closures (snd (iter_return s w)) = closures w \<and>
   outcomes [Return s, Return s] w
     = [Some \<lparr>ir_value = None, ir_done = True\<rparr>, Some \<lparr>ir_value = None, ir_done = True\<rparr>] \<and>
   outcomes [Next s, Return s, Publish (topicName s) e] w
     = [Some \<lparr>ir_value = Some e, ir_done = False\<rparr>, Some \<lparr>ir_value = None, ir_done = True\<rparr>]"
  by (simp add: outcomes_expected iter_return_eq)

theorem return_only_answers_itself_witness:
  "wf init_world \<and> iterator general = None \<and>
   outcomes [Next general, Return general] init_world
     = [None, Some \<lparr>ir_value = None, ir_done = True\<rparr>] \<and>
   subscriptions (pubsub (snd (iter_return general (snd (iter_next general init_world)))))
     = subscriptions (pubsub (snd (iter_next general init_world))) \<and>
   outcomes [Next general, Return general, Publish (topicName general) (sample ''1'' ''a'')] init_world
     = [Some \<lparr>ir_value = Some (sample ''1'' ''a''), ir_done = False\<rparr>,
        Some \<lparr>ir_value = None, ir_done = True\<rparr>]"
  using return_only_answers_itself[OF wf_init, where s = general and e = "sample ''1'' ''a''"]
    return_only_answers_itself[OF wf_iter_next[OF wf_init], where s = general
      and e = "sample ''1'' ''a''", of general]
    wf_init
  by (simp add: general_def)

text \<open>
  Claim C4: when \<open>next()\<close> is called on a session and \<open>publish(T, e)\<close> is then called once
  for the session's topic, the pending \<open>next()\<close> resolves to \<open>e\<close> with \<open>done: false\<close>. The
  promise is pending after the call of \<open>next()\<close> and holds the event after the publish.
\<close>

theorem waiting_pull_gets_event:
  "wf w \<Longrightarrow>
   (case messageAdded_subscribe cid w of (s, w0) \<Rightarrow>
      case iter_next s w0 of (p, w1) \<Rightarrow>
        promise_state w1 p = None \<and>
        promise_state (publish (topicName s) e w1) p = Some \<lparr>ir_value = Some e, ir_done = False\<rparr>)"
proof -
  assume wf: "wf w"
  let ?s = "\<lparr>topicName = topic_of cid, iterator = None\<rparr>"
  have a: "armed (topicName ?s) (length (promises w)) (snd (iter_next ?s w))"
    using wf by (intro armed_after_next) simp_all
  have "promise_state (publish (topicName ?s) e (snd (iter_next ?s w))) (length (promises w))
          = Some \<lparr>ir_value = Some e, ir_done = False\<rparr>"
    using wf_iter_next[OF wf] a by (rule armed_publish_same)
  moreover have "promise_state (snd (iter_next ?s w)) (length (promises w)) = None"
    using a by (simp add: armed_def)
  ultimately show ?thesis
    by (simp add: messageAdded_subscribe_def case_prod_beta)
qed

theorem waiting_pull_gets_event_witness:
  "wf init_world \<and>
   promise_state (snd (iter_next general init_world)) (fst (iter_next general init_world)) = None \<and>
   promise_state (publish (topicName general) (sample ''1'' ''hi'') (snd (iter_next general init_world)))
       (fst (iter_next general init_world))
     = Some \<lparr>ir_value = Some (sample ''1'' ''hi''), ir_done = False\<rparr>"
  using waiting_pull_gets_event[OF wf_init, where cid = "''1''" and e = "sample ''1'' ''hi''"]
    wf_init
  by (simp add: general_def case_prod_beta)

text \<open>
  Claim C5 says that after \<open>k\<close> publishes to an open session with no pending pull the next
  \<open>k\<close> calls of \<open>next()\<close> return those events in publish order. On the code, after three
  publishes to the topic of the open session for channel 1, three calls of \<open>next()\<close> make
  three promises that are all pending; none of the events is returned.
\<close>

theorem fifo_queue_counterexample:
  "fst (run [Publish (topicName general) (sample ''1'' ''a''),
             Publish (topicName general) (sample ''2'' ''b''),
             Publish (topicName general) (sample ''3'' ''c''),
             Next general, Next general, Next general] init_world) = [0, 1, 2] \<and>
   promises (snd (run [Publish (topicName general) (sample ''1'' ''a''),
             Publish (topicName general) (sample ''2'' ''b''),
             Publish (topicName general) (sample ''3'' ''c''),
             Next general, Next general, Next general] init_world)) = [None, None, None]"
  by code_simp

text \<open>
  Claim C5 as amended: a session keeps no FIFO queue. A listener has one slot for an event,
  which every event published to its topic overwrites, so it holds the latest event only;
  and a session registers no listener before its first \<open>next()\<close>, so events published to
  a topic that has no listener are stored nowhere, and the calls of \<open>next()\<close> that follow
  them each make a promise that exists and is pending.
\<close>

theorem no_fifo_queue:
  "wf w \<Longrightarrow>
   (\<forall>l \<in> set (listeners_for t w). lc_value (closures (publish t e w) ! l) = Some e) \<and>
   (listeners_for (topicName s) w = [] \<longrightarrow>
      promises (fold (publish (topicName s)) es w) = promises w \<and>
      closures (fold (publish (topicName s)) es w) = closures w \<and>
      fst (run (map (Publish (topicName s)) es @ replicate n (Next s)) w)
        = [length (promises w) ..< length (promises w) + n] \<and>
      promises (snd (run (map (Publish (topicName s)) es @ replicate n (Next s)) w))
        = promises w @ replicate n None)"
  by (simp add: publish_stores publishes_no_listener run_publishes run_nexts)

theorem no_fifo_queue_witness:
  "wf init_world \<and> listeners_for (topicName general) init_world = [] \<and>
   fst (run (map (Publish (topicName general)) [sample ''1'' ''a'', sample ''2'' ''b'']
          @ replicate 2 (Next general)) init_world) = [0, 1] \<and>
   promises (snd (run (map (Publish (topicName general)) [sample ''1'' ''a'', sample ''2'' ''b'']
          @ replicate 2 (Next general)) init_world)) = [None, None] \<and>
   listeners_for (topicName general) (snd (run [Next general,
       Publish (topicName general) (sample ''1'' ''a'')] init_world)) = [0] \<and>
   lc_value (closures (publish (topicName general) (sample ''2'' ''b'')
       (snd (run [Next general, Publish (topicName general) (sample ''1'' ''a'')] init_world))) ! 0)
     = Some (sample ''2'' ''b'')"
proof -
  let ?w = "snd (run [Next general, Publish (topicName general) (sample ''1'' ''a'')] init_world)"
  have none: "listeners_for (topicName general) init_world = []" by (simp add: listeners_for_def)
  have one: "listeners_for (topicName general) ?w = [0]" by code_simp
  have wf: "wf ?w" by (rule wf_run[OF wf_init])
  have "lc_value (closures (publish (topicName general) (sample ''2'' ''b'') ?w) ! 0)
          = Some (sample ''2'' ''b'')"
    using no_fifo_queue[OF wf, where t = "topicName general" and e = "sample ''2'' ''b''"]
    by (simp only: one) simp
  then show ?thesis
    using no_fifo_queue[OF wf_init, where s = general and n = 2
        and es = "[sample ''1'' ''a'', sample ''2'' ''b'']"] wf_init none one
    by (simp add: numeral_2_eq_2)
qed




text \<open>
  Claim C7 says that the topic is the fixed prefix followed by the channel id, the same in
  \<open>sendMessage\<close> and in the subscription, so that a published message reaches exactly the
  subscribers of the channel. On the code, a subscriber of channel 1 that has opened its
  session but not yet called \<open>next()\<close> does not get a message sent to channel 1: the message
  is stored and published, and the call of \<open>next()\<close> that follows makes a promise that
  stays pending.
\<close>

theorem reaches_subscribers_counterexample:
  "messages (snd (sendMessage ''t'' ''hi'' ''1'' ''1'' (snd (messageAdded_subscribe ''1'' init_world))))
     = [fst (sendMessage ''t'' ''hi'' ''1'' ''1'' (snd (messageAdded_subscribe ''1'' init_world)))] \<and>
   journal (snd (sendMessage ''t'' ''hi'' ''1'' ''1'' (snd (messageAdded_subscribe ''1'' init_world))))
     = [Pushed (fst (sendMessage ''t'' ''hi'' ''1'' ''1''
                  (snd (messageAdded_subscribe ''1'' init_world)))),
        Published (topicName general)
          (MessageAdded (fst (sendMessage ''t'' ''hi'' ''1'' ''1''
                  (snd (messageAdded_subscribe ''1'' init_world)))))] \<and>
   fst (run [Next general]
         (snd (sendMessage ''t'' ''hi'' ''1'' ''1'' (snd (messageAdded_subscribe ''1'' init_world)))))
     = [0] \<and>
   promises (snd (run [Next general]
         (snd (sendMessage ''t'' ''hi'' ''1'' ''1'' (snd (messageAdded_subscribe ''1'' init_world))))))
     = [None]"
  by code_simp

text \<open>
  Claim C7 as amended: the delivery topic is the fixed prefix \<open>MESSAGE_ADDED_\<close> followed by
  the channel id, in \<open>sendMessage\<close> and in the \<open>messageAdded\<close> subscription alike, and
  different channel ids give different topics; so a message sent to a channel resolves
  every call of \<open>next()\<close> that is pending on a subscription to that channel with that
  message, and leaves the calls pending on subscriptions to other channels as they are.
\<close>

theorem same_topic_for_channel:
  "wf w \<Longrightarrow> apart w \<Longrightarrow>
   topicName (fst (messageAdded_subscribe cid w)) = ''MESSAGE_ADDED_'' @ cid \<and>
   (topicName (fst (messageAdded_subscribe cid' w)) = topicName (fst (messageAdded_subscribe cid w))
      \<longleftrightarrow> cid' = cid) \<and>
   (case sendMessage now c sid cid w of (m, w') \<Rightarrow>
      last (journal w') = Published (''MESSAGE_ADDED_'' @ cid) (MessageAdded m) \<and>
      (\<forall>p \<in> set (outstanding (topicName (fst (messageAdded_subscribe cid w))) w).
         promise_state w' p = Some \<lparr>ir_value = Some (MessageAdded m), ir_done = False\<rparr>) \<and>
      (cid' \<noteq> cid \<longrightarrow>
         outstanding (topicName (fst (messageAdded_subscribe cid' w))) w'
           = outstanding (topicName (fst (messageAdded_subscribe cid' w))) w))"
proof -
  assume wf: "wf w" and ap: "apart w"
  let ?m = "fst (sendMessage now c sid cid w)"
  let ?w1 = "push_message ?m w"
  have wf1: "wf ?w1" using wf by simp
  have ap1: "apart ?w1" using ap by simp
  have o1: "outstanding t ?w1 = outstanding t w" for t
    by (simp add: outstanding_def held_def listeners_for_def)
  have same: "promise_state (snd (sendMessage now c sid cid w)) p
                = Some \<lparr>ir_value = Some (MessageAdded ?m), ir_done = False\<rparr>"
    if "p \<in> set (outstanding (topic_of cid) w)" for p
    using outstanding_resolved[OF wf1, of p "topic_of cid"] that
    by (simp add: snd_sendMessage o1)
  have other: "outstanding (topic_of cid') (snd (sendMessage now c sid cid w))
                 = outstanding (topic_of cid') w"
    if "cid' \<noteq> cid"
  proof -
    from that have "topic_of cid' \<noteq> topic_of cid" by (simp add: topic_of_def)
    from outstanding_publish_other[OF wf1 ap1 this] show ?thesis
      by (simp add: snd_sendMessage o1)
  qed
  show ?thesis
    using same other by (simp add: case_prod_beta snd_sendMessage topic_of_def)
qed

theorem same_topic_for_channel_witness:
  "wf (snd (run [Next general, Next random] init_world)) \<and>
   apart (snd (run [Next general, Next random] init_world)) \<and>
   topicName general = ''MESSAGE_ADDED_1'' \<and>
   outstanding (topicName general) (snd (run [Next general, Next random] init_world)) = [0] \<and>
   outstanding (topicName random) (snd (run [Next general, Next random] init_world)) = [1] \<and>
   promise_state (snd (sendMessage ''t'' ''hi'' ''1'' ''1''
       (snd (run [Next general, Next random] init_world)))) 0
     = Some \<lparr>ir_value = Some (MessageAdded (fst (sendMessage ''t'' ''hi'' ''1'' ''1''
          (snd (run [Next general, Next random] init_world))))), ir_done = False\<rparr> \<and>
   outstanding (topicName random) (snd (sendMessage ''t'' ''hi'' ''1'' ''1''
       (snd (run [Next general, Next random] init_world)))) = [1]"
proof -
  let ?w = "snd (run [Next general, Next random] init_world)"
  have wf: "wf ?w" by (rule wf_run[OF wf_init])
  have ap: "apart ?w" by (rule apart_run[OF wf_init apart_init])
  have g: "outstanding (topicName general) ?w = [0]" by code_simp
  have r: "outstanding (topicName random) ?w = [1]" by code_simp
  have sg: "fst (messageAdded_subscribe ''1'' ?w) = general"
    by (simp add: general_def messageAdded_subscribe_def)
  have sr: "fst (messageAdded_subscribe ''2'' ?w) = random"
    by (simp add: random_def messageAdded_subscribe_def)
  have tn: "topicName general = ''MESSAGE_ADDED_1''" by (simp add: general_def topic_of_def)
  show ?thesis
    using same_topic_for_channel[OF wf ap, where cid = "''1''" and cid' = "''2''"
        and now = "''t''" and c = "''hi''" and sid = "''1''"] wf ap
    unfolding sg sr g r by (simp add: case_prod_beta tn)
qed

text \<open>
  Claim C8: \<open>sendMessage\<close> appends the newly created message record to the message store
  before it calls \<open>publish\<close>, the published payload is that same record, and
  \<open>sendMessage\<close> returns it. The store afterwards is the old store followed by the returned
  record \<open>m\<close>, and the journal of calls grows by the push of \<open>m\<close> followed by the publish
  of \<open>{ messageAdded: m }\<close> on the channel's topic, in this order.
\<close>

theorem sendMessage_stores_then_publishes:
  "(case sendMessage now c sid cid w of (m, w') \<Rightarrow>
      m = \<lparr>msg_id = string_of_nat (length (messages w) + 1), content = c, createdAt = now,
           senderId = sid, channelId = cid\<rparr> \<and>
      messages w' = messages w @ [m] \<and>
      journal w' = journal w @ [Pushed m, Published (''MESSAGE_ADDED_'' @ cid) (MessageAdded m)])"
  by (simp add: case_prod_beta fst_sendMessage snd_sendMessage topic_of_def)

text \<open>
  Claim C9: every call of \<open>next()\<close> on a subscription iterator registers one more listener
  for the topic, and nothing unsubscribes: \<open>return()\<close> and \<open>sendMessage\<close> leave the bus as
  it is, and along any run the listeners registered for a topic only grow.
\<close>

theorem next_leaks_one_listener:
  "listeners_for (topic_of cid) (snd (iter_next (fst (messageAdded_subscribe cid w0)) w))
     = listeners_for (topic_of cid) w @ [length (closures w)] \<and>
   pubsub (snd (iter_return s w)) = pubsub w \<and>
   prefix (listeners_for t w) (listeners_for t (snd (run ops w))) \<and>
   pubsub (snd (sendMessage now c sid cid' w)) = pubsub w"
  by (simp add: listeners_for_iter_next messageAdded_subscribe_def iter_return_eq
      listeners_for_run_prefix snd_sendMessage)

text \<open>
  Claim C10: \<open>sendMessage\<close> validates neither \<open>senderId\<close> nor \<open>channelId\<close>: for all
  arguments it succeeds and appends a message carrying them, and when the sender id is not
  the id of a stored user the \<open>Message.sender\<close> resolver finds no user for that message.
\<close>

theorem sendMessage_no_validation:
  "(case sendMessage now c sid cid w of (m, w') \<Rightarrow>
      messages w' = messages w @ [m] \<and> senderId m = sid \<and> channelId m = cid \<and>
      (sid \<notin> set (map user_id users) \<longrightarrow> Message_sender m = None))"
  by (simp add: case_prod_beta messages_sendMessage fst_sendMessage Message_sender_None)

theorem sendMessage_no_validation_witness:
  "''9'' \<notin> set (map user_id users) \<and>
   messages (snd (sendMessage ''t'' ''hi'' ''9'' ''7'' init_world))
     = [fst (sendMessage ''t'' ''hi'' ''9'' ''7'' init_world)] \<and>
   Message_sender (fst (sendMessage ''t'' ''hi'' ''9'' ''7'' init_world)) = None"
  using sendMessage_no_validation[where now = "''t''" and c = "''hi''" and sid = "''9''"
      and cid = "''7''" and w = init_world]
  by (simp add: case_prod_beta users_def init_world_def)

end
